theory Spec2Isabelle
  imports Complex_Main
begin

section \<open>Python and numpy values\<close>

text \<open>
  The exceptions the modelled code can raise. A function that may raise returns
  \<open>error + 'a\<close>, with \<open>Inl\<close> for the exception.
\<close>

datatype error = IndexError | ValueError | TypeError | AttributeError

text \<open>
  A two-dimensional numpy array is a list of rows. The engines store \<open>True\<close> and
  \<open>False\<close> in their arrays (numpy keeps them as 1.0 and 0.0 in a float array); a cell
  is a \<open>bool\<close>, and where the code adds cells up, \<open>True\<close> counts 1 and \<open>False\<close>
  counts 0. Arrays are objects: a variable or attribute holds a reference, and the
  store maps each reference to the array's current content. A reference is a position
  in the store, and a new array is put at the end of it.
\<close>

type_synonym ndarray = "bool list list"
type_synonym ref = nat
type_synonym heap = "ndarray list"

definition rect :: "ndarray \<Rightarrow> int \<times> int \<Rightarrow> bool" where
  "rect a d \<longleftrightarrow> 0 \<le> fst d \<and> 0 \<le> snd d \<and> length a = nat (fst d) \<and>
     list_all (\<lambda>r. length r = nat (snd d)) a"

text \<open>\<^verbatim>\<open>np.shape\<close> of a two-dimensional array (an array with no row has no column here).\<close>

definition np_shape :: "ndarray \<Rightarrow> int \<times> int" where
  "np_shape a = (int (length a), (case a of [] \<Rightarrow> 0 | r # _ \<Rightarrow> int (length r)))"

text \<open>
  One coordinate of a numpy index on an axis of extent \<open>d\<close>: \<open>0 .. d-1\<close> is the
  position itself, \<open>-d .. -1\<close> counts from the end, anything else raises IndexError.
\<close>

definition axis_index :: "int \<Rightarrow> nat \<Rightarrow> error + nat" where
  "axis_index n d =
     (if 0 \<le> n \<and> n < int d then Inr (nat n)
      else if - int d \<le> n \<and> n < 0 then Inr (nat (n + int d))
      else Inl IndexError)"

text \<open>\<^verbatim>\<open>a[index]\<close> and \<^verbatim>\<open>a[index] = v\<close> for an index tuple \<open>(i, j)\<close>.\<close>

definition np_get :: "ndarray \<Rightarrow> int \<times> int \<Rightarrow> error + bool" where
  "np_get a index =
     (case axis_index (fst index) (length a) of
        Inl e \<Rightarrow> Inl e
      | Inr r \<Rightarrow>
          (case axis_index (snd index) (length (a ! r)) of
             Inl e \<Rightarrow> Inl e
           | Inr c \<Rightarrow> Inr (a ! r ! c)))"

definition np_set :: "ndarray \<Rightarrow> int \<times> int \<Rightarrow> bool \<Rightarrow> error + ndarray" where
  "np_set a index v =
     (case axis_index (fst index) (length a) of
        Inl e \<Rightarrow> Inl e
      | Inr r \<Rightarrow>
          (case axis_index (snd index) (length (a ! r)) of
             Inl e \<Rightarrow> Inl e
           | Inr c \<Rightarrow> Inr (a[r := (a ! r)[c := v]])))"

text \<open>
  \<^verbatim>\<open>np.empty(shape=dims)\<close>: a new array whose cells are not initialised. The model
  fills it with \<open>False\<close>; \<open>np_empty_content_irrelevant\<close> below shows that the loop
  of \<^verbatim>\<open>get_next_space\<close> returns the same store whatever the cells held.
\<close>

definition np_empty :: "int \<times> int \<Rightarrow> ndarray" where
  "np_empty d = replicate (nat (fst d)) (replicate (nat (snd d)) False)"

text \<open>\<^verbatim>\<open>range(n)\<close>, \<^verbatim>\<open>any(xs)\<close> on integers, \<^verbatim>\<open>xs.remove(x)\<close>, a pair as a sequence.\<close>

definition py_range :: "int \<Rightarrow> int list" where
  "py_range n = [0..n - 1]"

fun py_any :: "int list \<Rightarrow> bool" where
  "py_any [] = False"
| "py_any (x # xs) = (if x \<noteq> 0 then True else py_any xs)"

definition py_remove :: "'a \<Rightarrow> 'a list \<Rightarrow> error + 'a list" where
  "py_remove x xs = (if x \<in> set xs then Inr (remove1 x xs) else Inl ValueError)"

definition tuple2 :: "int \<times> int \<Rightarrow> int list" where
  "tuple2 p = [fst p, snd p]"


section \<open>The 2D engine: \<^verbatim>\<open>LifeSpace\<close> in \<^verbatim>\<open>life_2d.py\<close>\<close>

record LifeSpace =
  space :: ref
  dims :: "int \<times> int"
  wrap :: bool
  track :: bool
  ind_list :: "(int \<times> int) list"
  hist :: "ref list"

text \<open>\<^verbatim>\<open>__init__(self, *, space, wrap, track)\<close>; \<open>sp\<close> is the reference passed as \<^verbatim>\<open>space\<close>.\<close>

definition LifeSpace_init :: "heap \<Rightarrow> ref \<Rightarrow> bool \<Rightarrow> bool \<Rightarrow> LifeSpace" where
  "LifeSpace_init h sp w t =
     (let d = np_shape (h ! sp) in
      \<lparr> space = sp, dims = d, wrap = w, track = t,
        ind_list = [(i, j). i \<leftarrow> py_range (fst d), j \<leftarrow> py_range (snd d)],
        hist = [sp] \<rparr>)"

text \<open>
  \<^verbatim>\<open>check_valid_index\<close>. The first test is \<^verbatim>\<open>any(index) < 0\<close>: \<^verbatim>\<open>any\<close> returns a
  bool, which Python compares with 0 as the integer 0 or 1. The loop over
  \<^verbatim>\<open>zip(index, self.dims)\<close> is \<open>check_upper\<close>.
\<close>

fun check_upper :: "(int \<times> int) list \<Rightarrow> bool" where
  "check_upper [] = True"
| "check_upper ((n, d) # rest) = (if n > d - 1 then False else check_upper rest)"

definition check_valid_index :: "LifeSpace \<Rightarrow> int \<times> int \<Rightarrow> bool" where
  "check_valid_index s index =
     (if (of_bool (py_any (tuple2 index)) :: int) < 0 then False
      else check_upper (zip (tuple2 index) (tuple2 (dims s))))"

definition wrap_switch :: "int \<Rightarrow> int \<Rightarrow> int" where
  "wrap_switch n d = (if n < 0 then d - 1 else if n > d - 1 then 0 else n)"

definition wrap_index :: "LifeSpace \<Rightarrow> int \<times> int \<Rightarrow> int \<times> int" where
  "wrap_index s index =
     (wrap_switch (fst index) (fst (dims s)), wrap_switch (snd index) (snd (dims s)))"

definition get_neighbors :: "LifeSpace \<Rightarrow> int \<times> int \<Rightarrow> error + (int \<times> int) list" where
  "get_neighbors s index =
     (let ranges = map (\<lambda>n. [n - 1, n, n + 1]) (tuple2 index);
          neighbor_ind = [(a, b). a \<leftarrow> ranges ! 0, b \<leftarrow> ranges ! 1]
      in case py_remove index neighbor_ind of
           Inl e \<Rightarrow> Inl e
         | Inr neighbor_ind' \<Rightarrow>
             if wrap s then Inr (map (wrap_index s) neighbor_ind')
             else Inr (filter (check_valid_index s) neighbor_ind'))"

text \<open>
  \<^verbatim>\<open>count_live_neighbors\<close>: the list comprehension reads \<^verbatim>\<open>self.space[neighbor]\<close>
  for each neighbor in turn (\<open>read_cells\<close>), then the values are summed.
\<close>

fun read_cells :: "ndarray \<Rightarrow> (int \<times> int) list \<Rightarrow> error + bool list" where
  "read_cells a [] = Inr []"
| "read_cells a (neighbor # rest) =
     (case np_get a neighbor of
        Inl e \<Rightarrow> Inl e
      | Inr v \<Rightarrow> (case read_cells a rest of Inl e \<Rightarrow> Inl e | Inr vs \<Rightarrow> Inr (v # vs)))"

definition count_live_neighbors :: "heap \<Rightarrow> LifeSpace \<Rightarrow> (int \<times> int) list \<Rightarrow> error + int" where
  "count_live_neighbors h s neighbors =
     (case read_cells (h ! space s) neighbors of
        Inl e \<Rightarrow> Inl e
      | Inr vs \<Rightarrow> Inr (sum_list (map of_bool vs)))"

definition check_live :: "bool \<Rightarrow> int \<Rightarrow> bool" where
  "check_live live n_count =
     (if live then (if n_count = 2 \<or> n_count = 3 then True else False)
      else if n_count = 3 then True
      else False)"

definition get_next_cell :: "heap \<Rightarrow> LifeSpace \<Rightarrow> int \<times> int \<Rightarrow> error + bool" where
  "get_next_cell h s index =
     (case get_neighbors s index of
        Inl e \<Rightarrow> Inl e
      | Inr neighbors \<Rightarrow>
          (case count_live_neighbors h s neighbors of
             Inl e \<Rightarrow> Inl e
           | Inr live_neighbors \<Rightarrow>
               (case np_get (h ! space s) index of
                  Inl e \<Rightarrow> Inl e
                | Inr live \<Rightarrow> Inr (check_live live live_neighbors))))"

text \<open>
  \<^verbatim>\<open>get_next_space\<close>: \<open>new_space\<close> is the reference of the array made by
  \<^verbatim>\<open>np.empty\<close>; the loop over \<^verbatim>\<open>self.ind_list\<close> writes one cell of it per index, each
  computed by \<open>get_next_cell\<close> on the store as it is at that moment.
\<close>

fun get_next_space_loop :: "heap \<Rightarrow> LifeSpace \<Rightarrow> ref \<Rightarrow> (int \<times> int) list \<Rightarrow> error + heap" where
  "get_next_space_loop h s new_space [] = Inr h"
| "get_next_space_loop h s new_space (index # rest) =
     (case get_next_cell h s index of
        Inl e \<Rightarrow> Inl e
      | Inr v \<Rightarrow>
          (case np_set (h ! new_space) index v of
             Inl e \<Rightarrow> Inl e
           | Inr a \<Rightarrow> get_next_space_loop (h[new_space := a]) s new_space rest))"

definition get_next_space :: "heap \<Rightarrow> LifeSpace \<Rightarrow> error + ref \<times> heap" where
  "get_next_space h s =
     (let new_space = length h;
          h0 = h @ [np_empty (dims s)]
      in case get_next_space_loop h0 s new_space (ind_list s) of
           Inl e \<Rightarrow> Inl e
         | Inr h' \<Rightarrow> Inr (new_space, h'))"

text \<open>\<^verbatim>\<open>step\<close> returns the reference it stored in \<^verbatim>\<open>self.space\<close>, the store and the engine.\<close>

definition step :: "heap \<Rightarrow> LifeSpace \<Rightarrow> error + ref \<times> heap \<times> LifeSpace" where
  "step h s =
     (case get_next_space h s of
        Inl e \<Rightarrow> Inl e
      | Inr (r, h') \<Rightarrow>
          (let s1 = s\<lparr>space := r\<rparr>;
               s2 = (if track s1 then s1\<lparr>hist := hist s1 @ [space s1]\<rparr> else s1)
           in Inr (space s2, h', s2)))"

text \<open>\<open>n\<close> consecutive calls of \<^verbatim>\<open>step\<close> on the same engine.\<close>

fun steps :: "nat \<Rightarrow> heap \<Rightarrow> LifeSpace \<Rightarrow> error + heap \<times> LifeSpace" where
  "steps 0 h s = Inr (h, s)"
| "steps (Suc n) h s =
     (case step h s of
        Inl e \<Rightarrow> Inl e
      | Inr (r, h', s') \<Rightarrow> steps n h' s')"


section \<open>The terminal viewer: \<^verbatim>\<open>LifeViewer.get_view\<close>\<close>

fun get_view_row :: "string \<Rightarrow> bool list \<Rightarrow> string" where
  "get_view_row repr [] = repr"
| "get_view_row repr (j # rest) =
     (let repr1 = (if j then repr @ ''0'' else repr);
          repr2 = (if \<not> j then repr1 @ '' '' else repr1)
      in get_view_row repr2 rest)"

fun get_view_rows :: "string \<Rightarrow> ndarray \<Rightarrow> string" where
  "get_view_rows repr [] = repr"
| "get_view_rows repr (i # rest) = get_view_rows (get_view_row repr i @ ''\<newline>'') rest"

definition get_view :: "ndarray \<Rightarrow> string" where
  "get_view grid = get_view_rows [] grid"


section \<open>The vectorized stub: \<^verbatim>\<open>VectorLife\<close> in \<^verbatim>\<open>vectorized_life.py\<close>\<close>

text \<open>
  No method of this class writes to an array or makes one, so the board is carried
  as its content. \<^verbatim>\<open>tape\<close> is \<open>None\<close> when tracking is off.
\<close>

record VectorLife =
  board :: ndarray
  vdims :: "int \<times> int"
  vwrap :: bool
  vtrack :: bool
  tape :: "ndarray list option"

definition VectorLife_init :: "ndarray \<Rightarrow> bool \<Rightarrow> bool \<Rightarrow> VectorLife" where
  "VectorLife_init b w t =
     \<lparr> board = b, vdims = np_shape b, vwrap = w, vtrack = t,
       tape = (if t then Some [b] else None) \<rparr>"

text \<open>\<^verbatim>\<open>step\<close>: the body is \<^verbatim>\<open>pass\<close>.\<close>

definition VectorLife_step :: "VectorLife \<Rightarrow> VectorLife" where
  "VectorLife_step s = s"

text \<open>
  \<^verbatim>\<open>run\<close>: one round of the loop per element of \<^verbatim>\<open>range(g)\<close>.
  \<^verbatim>\<open>self.tape.append\<close> on a tape that is \<open>None\<close> raises AttributeError. The
  handler for a keyboard interrupt is not modelled: no interrupt arrives.
\<close>

fun VectorLife_run_loop :: "int list \<Rightarrow> VectorLife \<Rightarrow> error + VectorLife" where
  "VectorLife_run_loop [] s = Inr s"
| "VectorLife_run_loop (_ # rest) s =
     (let s1 = VectorLife_step s in
      if vtrack s1 then
        (case tape s1 of
           None \<Rightarrow> Inl AttributeError
         | Some t \<Rightarrow> VectorLife_run_loop rest (s1\<lparr>tape := Some (t @ [board s1])\<rparr>))
      else VectorLife_run_loop rest s1)"

definition VectorLife_run :: "int \<Rightarrow> VectorLife \<Rightarrow> error + VectorLife" where
  "VectorLife_run g s = VectorLife_run_loop (py_range g) s"


section \<open>The n-dimensional engine: \<^verbatim>\<open>LifeND.make_rules\<close> in \<^verbatim>\<open>life_nd.py\<close>\<close>

text \<open>
  Only \<^verbatim>\<open>make_rules\<close> and the part of \<^verbatim>\<open>__init__\<close> before its call are modelled:
  the index list of \<^verbatim>\<open>__init__\<close> and the candidates of \<^verbatim>\<open>get_neighbors\<close> are written
  with an ellipsis in place of code.
  \<^verbatim>\<open>self.dims\<close> is what \<^verbatim>\<open>np.shape(space)\<close> returned, a tuple; the class attribute
  \<^verbatim>\<open>dims = 2\<close> is an integer. \<open>pyval\<close> holds either. A Python float is a rational
  here: the constants 1/4, 3/8 and 1/2 and the proportions i/8 are exact in binary
  floating point.
\<close>

datatype pyval = PyInt int | PyTuple "int list"

text \<open>
  \<^verbatim>\<open>math.pow(x, y)\<close> for an integer \<open>x\<close>: a float, TypeError when \<open>y\<close> is not a
  number, ValueError for zero to a negative power. Rounding and overflow of the float
  are not modelled; \<^verbatim>\<open>make_rules\<close> raises before it uses the value.
\<close>

fun math_pow :: "int \<Rightarrow> pyval \<Rightarrow> error + rat" where
  "math_pow x (PyTuple _) = Inl TypeError"
| "math_pow x (PyInt n) =
     (if 0 \<le> n then Inr (of_int x ^ nat n)
      else if x = 0 then Inl ValueError
      else Inr (1 / of_int x ^ nat (- n)))"

text \<open>\<^verbatim>\<open>range(x)\<close>: TypeError for a float and for a tuple.\<close>

definition range_float :: "rat \<Rightarrow> error + int list" where
  "range_float x = Inl TypeError"

fun range_pyval :: "pyval \<Rightarrow> error + int list" where
  "range_pyval (PyInt n) = Inr (py_range n)"
| "range_pyval (PyTuple _) = Inl TypeError"

text \<open>\<^verbatim>\<open>ps[i]\<close> on a tuple, for the \<open>i \<ge> 0\<close> that \<^verbatim>\<open>range\<close> yields.\<close>

definition tuple_get :: "'a list \<Rightarrow> int \<Rightarrow> error + 'a" where
  "tuple_get xs i = (if 0 \<le> i \<and> i < int (length xs) then Inr (xs ! nat i) else Inl IndexError)"

text \<open>The four attributes \<^verbatim>\<open>make_rules\<close> may assign; \<open>None\<close> is an attribute not set.\<close>

record rules =
  low_rule :: "int option"
  high_rule :: "int option"
  res_low :: "int option"
  res_high :: "int option"

definition no_rules :: rules where
  "no_rules = \<lparr> low_rule = None, high_rule = None, res_low = None, res_high = None \<rparr>"

text \<open>
  The loop \<^verbatim>\<open>for i in range(self.dims)\<close> of \<^verbatim>\<open>make_rules\<close>. The state is the
  attributes and the three flags \<open>low_found\<close>, \<open>high_found\<close>, \<open>res_high_found\<close>.
\<close>

fun make_rules_loop :: "rat list \<Rightarrow> int list \<Rightarrow> rules \<Rightarrow> bool \<Rightarrow> bool \<Rightarrow> bool \<Rightarrow> error + rules" where
  "make_rules_loop ps [] r low_found high_found res_high_found = Inr r"
| "make_rules_loop ps (i # rest) r low_found high_found res_high_found =
     (case tuple_get ps i of
        Inl e \<Rightarrow> Inl e
      | Inr p \<Rightarrow>
          (let neighbors_l = 1 / 4; neighbors_h = 3 / 8; res_h = 1 / 2;
               (r1, low_found1) =
                 (if \<not> low_found \<and> p \<ge> neighbors_l then (r\<lparr>low_rule := Some i\<rparr>, True)
                  else (r, low_found));
               (r2, high_found1) =
                 (if \<not> high_found then
                    (if p = neighbors_h
                     then (r1\<lparr>high_rule := Some i, res_low := Some i\<rparr>, True)
                     else if p > neighbors_h
                     then (r1\<lparr>high_rule := Some (i - 1), res_low := Some (i - 1)\<rparr>, True)
                     else (r1, high_found))
                  else (r1, high_found));
               (r3, res_high_found1) =
                 (if \<not> res_high_found \<and> p \<ge> res_h then (r2\<lparr>res_high := Some (i - 1)\<rparr>, True)
                  else (r2, res_high_found))
           in if low_found1 \<and> high_found1 \<and> res_high_found1 then Inr r3
              else make_rules_loop ps rest r3 low_found1 high_found1 res_high_found1))"

text \<open>
  \<^verbatim>\<open>make_rules\<close> on an engine whose \<^verbatim>\<open>dims\<close> attribute is \<open>d\<close> and whose rule
  attributes are not set yet.
\<close>

definition make_rules :: "pyval \<Rightarrow> error + rules" where
  "make_rules d =
     (case math_pow 3 d of
        Inl e \<Rightarrow> Inl e
      | Inr p \<Rightarrow>
          (let num_neighbors = p - 1 in
           case range_float num_neighbors of
             Inl e \<Rightarrow> Inl e
           | Inr is \<Rightarrow>
               (let ps = map (\<lambda>i. of_int i / num_neighbors) is in
                case range_pyval d of
                  Inl e \<Rightarrow> Inl e
                | Inr js \<Rightarrow> make_rules_loop ps js no_rules False False False)))"

text \<open>\<^verbatim>\<open>LifeND.__init__\<close> up to its call of \<^verbatim>\<open>make_rules\<close>.\<close>

definition LifeND_dims :: "ndarray \<Rightarrow> pyval" where
  "LifeND_dims a = PyTuple (tuple2 (np_shape a))"

definition LifeND_init_rules :: "ndarray \<Rightarrow> error + rules" where
  "LifeND_init_rules a = make_rules (LifeND_dims a)"

text \<open>The boards the properties below are run on.\<close>

definition block4 :: ndarray where
  "block4 = [[False, False, False, False],
             [False, True, True, False],
             [False, True, True, False],
             [False, False, False, False]]"

definition row3 :: ndarray where
  "row3 = [[False, True, False]]"

definition bottom3 :: ndarray where
  "bottom3 = [[False, False, False],
              [False, False, False],
              [True, True, True]]"

section \<open>Notions used to state the properties\<close>

text \<open>
  \<open>in_bounds\<close>: the index names a cell of a board of extents \<open>d\<close>. \<open>readable\<close>: numpy
  accepts the index on such a board (a coordinate may be negative, down to minus the
  extent). \<open>cell_at\<close>: the cell a read at a readable index returns, a negative
  coordinate counting from the far edge. \<open>candidates\<close>: the eight tuples around an index,
  in the order the nested comprehension of \<^verbatim>\<open>get_neighbors\<close> makes them.
  \<open>neighbors_of\<close> and \<open>next_cell_value\<close>: what \<^verbatim>\<open>get_neighbors\<close> and
  \<^verbatim>\<open>get_next_cell\<close> return where they do not raise. \<open>wf\<close>: the engine's board is an
  array of the store, of the shape \<^verbatim>\<open>dims\<close> records, and \<^verbatim>\<open>ind_list\<close> is what
  \<^verbatim>\<open>__init__\<close> made of that shape.
\<close>

definition in_bounds :: "int \<times> int \<Rightarrow> int \<times> int \<Rightarrow> bool" where
  "in_bounds d index \<longleftrightarrow> 0 \<le> fst index \<and> fst index < fst d \<and> 0 \<le> snd index \<and> snd index < snd d"

definition readable :: "int \<times> int \<Rightarrow> int \<times> int \<Rightarrow> bool" where
  "readable d index \<longleftrightarrow> - fst d \<le> fst index \<and> fst index < fst d \<and> - snd d \<le> snd index \<and> snd index < snd d"

definition cell_at :: "ndarray \<Rightarrow> int \<times> int \<Rightarrow> bool" where
  "cell_at a index = a ! nat (fst index mod int (length a)) ! nat (snd index mod int (length (hd a)))"

definition candidates :: "int \<times> int \<Rightarrow> (int \<times> int) list" where
  "candidates index = (let i = fst index; j = snd index in
     [(i - 1, j - 1), (i - 1, j), (i - 1, j + 1), (i, j - 1), (i, j + 1),
      (i + 1, j - 1), (i + 1, j), (i + 1, j + 1)])"

definition wf :: "heap \<Rightarrow> LifeSpace \<Rightarrow> bool" where
  "wf h s \<longleftrightarrow> space s < length h \<and> rect (h ! space s) (dims s) \<and>
     ind_list s = [(i, j). i \<leftarrow> py_range (fst (dims s)), j \<leftarrow> py_range (snd (dims s))]"

definition neighbors_of :: "LifeSpace \<Rightarrow> int \<times> int \<Rightarrow> (int \<times> int) list" where
  "neighbors_of s index =
     (if wrap s then map (wrap_index s) (candidates index)
      else filter (check_valid_index s) (candidates index))"

definition next_cell_value :: "ndarray \<Rightarrow> LifeSpace \<Rightarrow> int \<times> int \<Rightarrow> bool" where
  "next_cell_value a s index =
     check_live (cell_at a index) (sum_list (map (\<lambda>n. of_bool (cell_at a n)) (neighbors_of s index)))"


section \<open>Reads, neighbours and the update loop\<close>

lemma axis_index_mod:
  assumes "- int d \<le> n" "n < int d"
  shows "axis_index n d = Inr (nat (n mod int d))"
proof (cases "0 \<le> n")
  case True
  with assms show ?thesis by (simp add: axis_index_def)
next
  case False
  with assms have "n mod int d = n + int d"
    by (smt (verit) mod_add_self2 mod_pos_pos_trivial)
  with False assms show ?thesis by (simp add: axis_index_def)
qed

lemma rect_row: "rect a d \<Longrightarrow> r < length a \<Longrightarrow> length (a ! r) = nat (snd d)"
  by (simp add: rect_def list_all_length)

lemma rect_hd: "rect a d \<Longrightarrow> 0 < fst d \<Longrightarrow> length (hd a) = nat (snd d)"
  by (cases a) (auto simp: rect_def)

lemma np_get_readable:
  assumes "rect a d" "readable d index"
  shows "np_get a index = Inr (cell_at a index)"
proof -
  have l: "length a = nat (fst d)" and d0: "0 \<le> fst d" "0 \<le> snd d"
    using assms(1) by (auto simp: rect_def)
  have pos: "0 < fst d" using assms(2) by (auto simp: readable_def)
  have a1: "axis_index (fst index) (length a) = Inr (nat (fst index mod int (length a)))"
    using assms(2) l d0 by (intro axis_index_mod) (auto simp: readable_def)
  have "fst index mod int (length a) < int (length a)"
    using l pos by (simp)
  moreover have "0 \<le> fst index mod int (length a)" using l pos by simp
  ultimately have r: "nat (fst index mod int (length a)) < length a" by linarith
  have lr: "length (a ! nat (fst index mod int (length a))) = nat (snd d)"
    using rect_row [OF assms(1) r] .
  have lh: "length (hd a) = nat (snd d)" using rect_hd [OF assms(1) pos] .
  have a2: "axis_index (snd index) (nat (snd d)) = Inr (nat (snd index mod int (nat (snd d))))"
    using assms(2) d0 by (intro axis_index_mod) (auto simp: readable_def)
  show ?thesis
    by (simp add: np_get_def a1 lr a2 cell_at_def lh)
qed

lemma check_valid_index_iff:
  "check_valid_index s index \<longleftrightarrow> fst index \<le> fst (dims s) - 1 \<and> snd index \<le> snd (dims s) - 1"
  by (auto simp: check_valid_index_def tuple2_def)

lemma get_neighbors_eq:
  "get_neighbors s index =
     Inr (if wrap s then map (wrap_index s) (candidates index)
          else filter (check_valid_index s) (candidates index))"
  by (cases index) (simp add: get_neighbors_def tuple2_def py_remove_def candidates_def Let_def)

lemma wrap_switch_range: "0 < d \<Longrightarrow> 0 \<le> wrap_switch n d \<and> wrap_switch n d < d"
  by (auto simp: wrap_switch_def)

lemma neighbors_readable:
  assumes "in_bounds (dims s) index" "get_neighbors s index = Inr ns" "n \<in> set ns"
  shows "readable (dims s) n"
proof (cases "wrap s")
  case True
  have pos: "0 < fst (dims s)" "0 < snd (dims s)" using assms(1) by (auto simp: in_bounds_def)
  from True assms(2,3) obtain c where "n = wrap_index s c"
    by (auto simp: get_neighbors_eq)
  then show ?thesis
    using wrap_switch_range [OF pos(1)] wrap_switch_range [OF pos(2)]
    by (simp add: readable_def wrap_index_def) (smt (verit))
next
  case False
  with assms(2,3) have c: "n \<in> set (candidates index)" and v: "check_valid_index s n"
    by (auto simp: get_neighbors_eq)
  from c assms(1) have "- 1 \<le> fst n \<and> - 1 \<le> snd n"
    by (auto simp: candidates_def in_bounds_def Let_def)
  with v assms(1) show ?thesis
    by (auto simp: readable_def check_valid_index_iff in_bounds_def)
qed

lemma read_cells_readable:
  "rect a d \<Longrightarrow> \<forall>n \<in> set ns. readable d n \<Longrightarrow> read_cells a ns = Inr (map (cell_at a) ns)"
  by (induction ns) (simp_all add: np_get_readable)

lemma in_bounds_readable: "in_bounds d index \<Longrightarrow> readable d index"
  by (auto simp: in_bounds_def readable_def)

lemma get_next_cell_heap:
  assumes "h' ! space s = h ! space s"
  shows "get_next_cell h' s index = get_next_cell h s index"
proof -
  have "count_live_neighbors h' s = count_live_neighbors h s"
    using assms by (intro ext) (simp add: count_live_neighbors_def)
  then show ?thesis using assms by (simp add: get_next_cell_def cong: sum.case_cong)
qed

lemma count_live_neighbors_ok:
  assumes "rect (h ! space s) (dims s)" "in_bounds (dims s) index"
  shows "count_live_neighbors h s (neighbors_of s index) =
           Inr (sum_list (map (\<lambda>n. of_bool (cell_at (h ! space s) n)) (neighbors_of s index)))"
proof -
  have "\<forall>n \<in> set (neighbors_of s index). readable (dims s) n"
    using neighbors_readable [OF assms(2), of "neighbors_of s index"]
    by (simp add: get_neighbors_eq neighbors_of_def)
  then show ?thesis
    using read_cells_readable [OF assms(1)]
    by (simp add: count_live_neighbors_def comp_def)
qed

lemma get_next_cell_ok:
  assumes "rect (h ! space s) (dims s)" "in_bounds (dims s) index"
  shows "get_next_cell h s index = Inr (next_cell_value (h ! space s) s index)"
proof -
  have g: "get_neighbors s index = Inr (neighbors_of s index)"
    by (simp add: get_neighbors_eq neighbors_of_def)
  show ?thesis
    using count_live_neighbors_ok [OF assms] np_get_readable [OF assms(1) in_bounds_readable [OF assms(2)]]
    by (simp add: get_next_cell_def g next_cell_value_def)
qed

lemma cell_at_in_bounds:
  assumes "rect a d" "in_bounds d index"
  shows "cell_at a index = a ! nat (fst index) ! nat (snd index)"
proof -
  have "0 < fst d" using assms(2) by (auto simp: in_bounds_def)
  then have "length (hd a) = nat (snd d)" using rect_hd assms(1) by blast
  moreover have "length a = nat (fst d)" using assms(1) by (simp add: rect_def)
  ultimately show ?thesis using assms(2)
    by (simp add: cell_at_def in_bounds_def)
qed

lemma np_set_in_bounds:
  assumes "rect a d" "in_bounds d index"
  shows "np_set a index v = Inr (a[nat (fst index) := (a ! nat (fst index))[nat (snd index) := v]])"
proof -
  have l: "length a = nat (fst d)" using assms(1) by (simp add: rect_def)
  have r: "nat (fst index) < length a" using assms(2) l by (auto simp: in_bounds_def)
  have a1: "axis_index (fst index) (length a) = Inr (nat (fst index))"
    using assms(2) l by (simp add: axis_index_def in_bounds_def)
  have a2: "axis_index (snd index) (length (a ! nat (fst index))) = Inr (nat (snd index))"
    using assms(2) rect_row [OF assms(1) r] by (simp add: axis_index_def in_bounds_def)
  show ?thesis by (simp add: np_set_def a1 a2)
qed

lemma rect_update:
  assumes "rect a d" "r < length a"
  shows "rect (a[r := (a ! r)[c := v]]) d"
  using assms by (auto simp: rect_def list_all_length nth_list_update)

lemma cell_at_update:
  assumes "rect a d" "in_bounds d index" "in_bounds d index'"
  shows "cell_at (a[nat (fst index) := (a ! nat (fst index))[nat (snd index) := v]]) index' =
           (if index' = index then v else cell_at a index')"
proof -
  let ?a' = "a[nat (fst index) := (a ! nat (fst index))[nat (snd index) := v]]"
  have l: "length a = nat (fst d)" using assms(1) by (simp add: rect_def)
  have r: "nat (fst index) < length a" "nat (fst index') < length a"
    using assms(2,3) l by (auto simp: in_bounds_def)
  have c: "nat (snd index) < length (a ! nat (fst index))"
    using assms(2) rect_row [OF assms(1) r(1)] by (auto simp: in_bounds_def)
  have "rect ?a' d" using rect_update [OF assms(1) r(1)] .
  then have "cell_at ?a' index' = ?a' ! nat (fst index') ! nat (snd index')"
    using cell_at_in_bounds assms(3) by blast
  also have "\<dots> = (if index' = index then v else a ! nat (fst index') ! nat (snd index'))"
    using r c assms(2,3)
    by (cases index; cases index') (auto simp: nth_list_update in_bounds_def)
  finally show ?thesis using cell_at_in_bounds [OF assms(1) assms(3)] by simp
qed

lemma get_next_space_loop_ok:
  assumes "new_space < length h" "new_space \<noteq> space s"
    and "rect (h ! space s) (dims s)" "rect (h ! new_space) (dims s)"
    and "\<forall>index \<in> set idxs. in_bounds (dims s) index"
  shows "\<exists>a. get_next_space_loop h s new_space idxs = Inr (h[new_space := a]) \<and> rect a (dims s) \<and>
           (\<forall>index. in_bounds (dims s) index \<longrightarrow>
              cell_at a index = (if index \<in> set idxs then next_cell_value (h ! space s) s index
                                 else cell_at (h ! new_space) index))"
  using assms
proof (induction idxs arbitrary: h)
  case Nil
  then show ?case by (auto intro: exI [of _ "h ! new_space"])
next
  case (Cons index rest)
  let ?v = "next_cell_value (h ! space s) s index"
  let ?a1 = "(h ! new_space)[nat (fst index) := (h ! new_space ! nat (fst index))[nat (snd index) := ?v]]"
  let ?h1 = "h[new_space := ?a1]"
  have ib: "in_bounds (dims s) index" using Cons.prems(5) by simp
  have gc: "get_next_cell h s index = Inr ?v"
    using get_next_cell_ok [OF Cons.prems(3) ib] .
  have ns: "np_set (h ! new_space) index ?v = Inr ?a1"
    using np_set_in_bounds [OF Cons.prems(4) ib] .
  have r: "nat (fst index) < length (h ! new_space)"
    using ib Cons.prems(4) by (auto simp: rect_def in_bounds_def)
  have ra1: "rect ?a1 (dims s)" using rect_update [OF Cons.prems(4) r] .
  have sp1: "?h1 ! space s = h ! space s" using Cons.prems(2) by simp
  have new1: "?h1 ! new_space = ?a1" using Cons.prems(1) by simp
  have "\<exists>a. get_next_space_loop ?h1 s new_space rest = Inr (?h1[new_space := a]) \<and> rect a (dims s) \<and>
           (\<forall>index. in_bounds (dims s) index \<longrightarrow>
              cell_at a index = (if index \<in> set rest then next_cell_value (?h1 ! space s) s index
                                 else cell_at (?h1 ! new_space) index))"
  proof (rule Cons.IH)
    show "new_space < length ?h1" using Cons.prems(1) by simp
    show "new_space \<noteq> space s" by fact
    show "rect (?h1 ! space s) (dims s)" using sp1 Cons.prems(3) by simp
    show "rect (?h1 ! new_space) (dims s)" using new1 ra1 by simp
    show "\<forall>index \<in> set rest. in_bounds (dims s) index" using Cons.prems(5) by simp
  qed
  then obtain a where a: "get_next_space_loop ?h1 s new_space rest = Inr (?h1[new_space := a])"
    "rect a (dims s)"
    "\<And>index'. in_bounds (dims s) index' \<Longrightarrow>
        cell_at a index' = (if index' \<in> set rest then next_cell_value (h ! space s) s index'
                           else cell_at ?a1 index')"
    unfolding sp1 new1 by blast
  have "get_next_space_loop h s new_space (index # rest) = Inr (h[new_space := a])"
    using gc ns a(1) by simp
  moreover have "\<forall>index'. in_bounds (dims s) index' \<longrightarrow>
      cell_at a index' = (if index' \<in> set (index # rest) then next_cell_value (h ! space s) s index'
                          else cell_at (h ! new_space) index')"
    using a(3) cell_at_update [OF Cons.prems(4) ib] by auto
  ultimately show ?case using a(2) by blast
qed

lemma rect_np_empty: "0 \<le> fst d \<Longrightarrow> 0 \<le> snd d \<Longrightarrow> rect (np_empty d) d"
  by (simp add: rect_def np_empty_def list_all_length)

lemma set_py_range: "set (py_range n) = {0..n - 1}"
  by (simp add: py_range_def)

lemma in_bounds_ind_list:
  "index \<in> set [(i, j). i \<leftarrow> py_range (fst d), j \<leftarrow> py_range (snd d)] \<longleftrightarrow> in_bounds d index"
  by (cases index) (auto simp: set_py_range in_bounds_def image_iff)

lemma rect_ext:
  assumes "rect a d" "rect b d"
    and "\<And>index. in_bounds d index \<Longrightarrow> cell_at a index = cell_at b index"
  shows "a = b"
proof (rule nth_equalityI)
  show "length a = length b" using assms(1,2) by (simp add: rect_def)
next
  fix r assume r: "r < length a"
  then have rb: "r < length b" using assms(1,2) by (simp add: rect_def)
  show "a ! r = b ! r"
  proof (rule nth_equalityI)
    show "length (a ! r) = length (b ! r)"
      using rect_row [OF assms(1) r] rect_row [OF assms(2) rb] by simp
  next
    fix c assume c: "c < length (a ! r)"
    have ib: "in_bounds d (int r, int c)"
      using r c rect_row [OF assms(1) r] assms(1) by (auto simp: in_bounds_def rect_def)
    show "a ! r ! c = b ! r ! c"
      using assms(3) [OF ib] cell_at_in_bounds [OF assms(1) ib] cell_at_in_bounds [OF assms(2) ib]
      by simp
  qed
qed

lemma get_next_space_loop_fresh:
  assumes "wf h s" "rect j (dims s)"
  shows "\<exists>a. get_next_space_loop (h @ [j]) s (length h) (ind_list s) = Inr (h @ [a]) \<and>
           rect a (dims s) \<and>
           (\<forall>index. in_bounds (dims s) index \<longrightarrow>
              cell_at a index = next_cell_value (h ! space s) s index)"
proof -
  let ?new = "length h"
  let ?h0 = "h @ [j]"
  have sp: "space s < length h" and r: "rect (h ! space s) (dims s)"
    and il: "ind_list s = [(i, j). i \<leftarrow> py_range (fst (dims s)), j \<leftarrow> py_range (snd (dims s))]"
    using assms(1) by (auto simp: wf_def)
  have sp0: "?h0 ! space s = h ! space s" using sp by (simp add: nth_append)
  have "\<exists>a. get_next_space_loop ?h0 s ?new (ind_list s) = Inr (?h0[?new := a]) \<and> rect a (dims s) \<and>
           (\<forall>index. in_bounds (dims s) index \<longrightarrow>
              cell_at a index = (if index \<in> set (ind_list s) then next_cell_value (?h0 ! space s) s index
                                 else cell_at (?h0 ! ?new) index))"
  proof (rule get_next_space_loop_ok)
    show "?new < length ?h0" by simp
    show "?new \<noteq> space s" using sp by simp
    show "rect (?h0 ! space s) (dims s)" using sp0 r by simp
    show "rect (?h0 ! ?new) (dims s)" using assms(2) by simp
    show "\<forall>index \<in> set (ind_list s). in_bounds (dims s) index"
      unfolding il using in_bounds_ind_list by blast
  qed
  then obtain a where a: "get_next_space_loop ?h0 s ?new (ind_list s) = Inr (?h0[?new := a])"
    "rect a (dims s)"
    "\<And>index. in_bounds (dims s) index \<Longrightarrow>
       cell_at a index = (if index \<in> set (ind_list s) then next_cell_value (h ! space s) s index
                          else cell_at (?h0 ! ?new) index)"
    unfolding sp0 by blast
  have "get_next_space_loop ?h0 s ?new (ind_list s) = Inr (h @ [a])"
    using a(1) by simp
  moreover have "\<forall>index. in_bounds (dims s) index \<longrightarrow>
      cell_at a index = next_cell_value (h ! space s) s index"
    using a(3) in_bounds_ind_list [of _ "dims s"] il by simp
  ultimately show ?thesis using a(2) by blast
qed

lemma np_empty_content_irrelevant:
  assumes "wf h s" "rect j (dims s)"
  shows "get_next_space_loop (h @ [j]) s (length h) (ind_list s) =
         get_next_space_loop (h @ [np_empty (dims s)]) s (length h) (ind_list s)"
proof -
  have d0: "0 \<le> fst (dims s)" "0 \<le> snd (dims s)" using assms(2) by (auto simp: rect_def)
  obtain a1 where a1: "get_next_space_loop (h @ [j]) s (length h) (ind_list s) = Inr (h @ [a1])"
    "rect a1 (dims s)"
    "\<And>index. in_bounds (dims s) index \<Longrightarrow> cell_at a1 index = next_cell_value (h ! space s) s index"
    using get_next_space_loop_fresh [OF assms] by blast
  obtain a2 where a2: "get_next_space_loop (h @ [np_empty (dims s)]) s (length h) (ind_list s) = Inr (h @ [a2])"
    "rect a2 (dims s)"
    "\<And>index. in_bounds (dims s) index \<Longrightarrow> cell_at a2 index = next_cell_value (h ! space s) s index"
    using get_next_space_loop_fresh [OF assms(1) rect_np_empty [OF d0]] by blast
  have "a1 = a2"
    by (rule rect_ext [OF a1(2) a2(2)]) (simp add: a1(3) a2(3))
  with a1(1) a2(1) show ?thesis by simp
qed

lemma get_next_space_ok:
  assumes "wf h s"
  shows "\<exists>a. get_next_space h s = Inr (length h, h @ [a]) \<and> rect a (dims s) \<and>
           (\<forall>index. in_bounds (dims s) index \<longrightarrow>
              cell_at a index = next_cell_value (h ! space s) s index)"
proof -
  have "rect (h ! space s) (dims s)" using assms by (simp add: wf_def)
  then have "rect (np_empty (dims s)) (dims s)" by (intro rect_np_empty) (auto simp: rect_def)
  from get_next_space_loop_fresh [OF assms this] show ?thesis
    by (auto simp: get_next_space_def Let_def)
qed

lemma step_ok:
  assumes "wf h s"
  shows "\<exists>a. step h s = Inr (length h, h @ [a],
                 s\<lparr>space := length h, hist := (if track s then hist s @ [length h] else hist s)\<rparr>) \<and>
              rect a (dims s) \<and>
              (\<forall>index. in_bounds (dims s) index \<longrightarrow>
                 cell_at a index = next_cell_value (h ! space s) s index)"
proof -
  obtain a where a: "get_next_space h s = Inr (length h, h @ [a])" "rect a (dims s)"
    "\<forall>index. in_bounds (dims s) index \<longrightarrow> cell_at a index = next_cell_value (h ! space s) s index"
    using get_next_space_ok [OF assms] by blast
  have "step h s = Inr (length h, h @ [a],
                 s\<lparr>space := length h, hist := (if track s then hist s @ [length h] else hist s)\<rparr>)"
    using a(1) by (simp add: step_def Let_def)
  then show ?thesis using a(2,3) by blast
qed

lemma wf_step:
  assumes "wf h s" "step h s = Inr (r, h', s')"
  shows "wf h' s'"
proof -
  obtain a where a: "step h s = Inr (length h, h @ [a],
                 s\<lparr>space := length h, hist := (if track s then hist s @ [length h] else hist s)\<rparr>)"
    "rect a (dims s)"
    using step_ok [OF assms(1)] by blast
  with assms(2) have "h' = h @ [a]" "space s' = length h" "dims s' = dims s" "ind_list s' = ind_list s"
    by auto
  then show ?thesis using a(2) assms(1) by (simp add: wf_def)
qed

lemma rect_np_shape: "rect a d \<Longrightarrow> rect a (np_shape a)"
  by (cases a) (auto simp: rect_def np_shape_def)

lemma wf_init:
  assumes "sp < length h" "rect (h ! sp) d"
  shows "wf h (LifeSpace_init h sp w t)"
  using assms rect_np_shape [OF assms(2)] by (simp add: wf_def LifeSpace_init_def Let_def)


lemma steps_ok:
  assumes "wf h s"
  shows "\<exists>h' s'. steps N h s = Inr (h', s') \<and> wf h' s' \<and> dims s' = dims s \<and> wrap s' = wrap s \<and>
           track s' = track s \<and> length h' = length h + N \<and> take (length h) h' = h \<and>
           hist s' = hist s @ (if track s then [length h..<length h + N] else []) \<and>
           space s' = (if N = 0 then space s else length h + N - 1)"
  using assms
proof (induction N arbitrary: h s)
  case 0
  then show ?case by simp
next
  case (Suc N)
  obtain a where st: "step h s = Inr (length h, h @ [a],
                 s\<lparr>space := length h, hist := (if track s then hist s @ [length h] else hist s)\<rparr>)"
    using step_ok [OF Suc.prems] by blast
  let ?h1 = "h @ [a]"
  let ?s1 = "s\<lparr>space := length h, hist := (if track s then hist s @ [length h] else hist s)\<rparr>"
  have w1: "wf ?h1 ?s1" using wf_step [OF Suc.prems st] .
  from Suc.IH [OF w1] obtain h' s' where s': "steps N ?h1 ?s1 = Inr (h', s')" "wf h' s'"
    "dims s' = dims ?s1" "wrap s' = wrap ?s1" "track s' = track ?s1"
    "length h' = length ?h1 + N" "take (length ?h1) h' = ?h1"
    "hist s' = hist ?s1 @ (if track ?s1 then [length ?h1..<length ?h1 + N] else [])"
    "space s' = (if N = 0 then space ?s1 else length ?h1 + N - 1)"
    by blast
  have "steps (Suc N) h s = Inr (h', s')" using st s'(1) by simp
  moreover have "take (length h) h' = h"
  proof -
    have "take (length h) h' = take (length h) (take (length ?h1) h')" by (simp add: min_def)
    also have "\<dots> = take (length h) ?h1" by (simp only: s'(7))
    finally show ?thesis by simp
  qed
  moreover have "hist s' = hist s @ (if track s then [length h..<length h + Suc N] else [])"
    using s'(8) by (simp add: upt_conv_Cons)
  moreover have "space s' = (if Suc N = 0 then space s else length h + Suc N - 1)"
    using s'(9) by simp
  ultimately show ?case using s'(2-6) by simp
qed

lemma steps_add:
  "steps (k + m) h s = (case steps k h s of Inl e \<Rightarrow> Inl e | Inr (h1, s1) \<Rightarrow> steps m h1 s1)"
  by (induction k arbitrary: h s) (auto split: sum.splits)


section \<open>Index validity\<close>

text \<open>
  Claim C1 says that \<^verbatim>\<open>check_valid_index\<close> is true exactly for the indices with every
  coordinate in \<open>[0, extent - 1]\<close>, so that an index with a negative coordinate is
  rejected. The code does not reject it: on the engine of a 4x4 board, the index
  \<open>(-1, 0)\<close> is accepted. The comment above the first test of the method says an index
  with a coordinate below 0 is to return False.
\<close>

theorem check_valid_index_negative:
  "check_valid_index (LifeSpace_init [block4] 0 False False) (- 1, 0) = True"
  by (simp add: check_valid_index_def LifeSpace_init_def np_shape_def block4_def tuple2_def)


section \<open>Wrapping one coordinate\<close>

lemma wrap_switch_near:
  assumes "1 \<le> d" "- 1 \<le> n" "n \<le> d"
  shows "wrap_switch n d = n mod d"
proof -
  consider "n = - 1" | "n = d" | "0 \<le> n" "n < d" using assms by linarith
  then show ?thesis
  proof cases
    case 1
    with assms show ?thesis by (simp add: wrap_switch_def zmod_minus1)
  next
    case 2
    with assms show ?thesis by (simp add: wrap_switch_def)
  next
    case 3
    then show ?thesis by (simp add: wrap_switch_def)
  qed
qed

text \<open>
  Claim C5 as stated, \<open>wrap_switch n d = n mod d\<close> for every \<open>d \<ge> 1\<close> and every integer
  \<open>n\<close>, fails two steps below the axis: \<open>wrap_switch (-2) 5\<close> is 4 and \<open>-2 mod 5\<close> is 3.
\<close>

theorem wrap_switch_not_mod: "wrap_switch (- 2) 5 \<noteq> (- 2) mod 5"
  by (simp add: wrap_switch_def)

text \<open>
  Claim C5, amended: for an extent \<open>d \<ge> 1\<close> and a coordinate \<open>n\<close> at most one step
  outside the axis (\<open>-1 \<le> n \<le> d\<close>), \<open>wrap_switch n d\<close> is \<open>n mod d\<close>, and \<^verbatim>\<open>wrap_index\<close>
  maps an index whose two coordinates are such to its coordinates modulo the extents.
\<close>

theorem wrap_switch_mod:
  "(1 \<le> d \<and> - 1 \<le> n \<and> n \<le> d \<longrightarrow> wrap_switch n d = n mod d) \<and>
   (1 \<le> fst (dims s) \<and> 1 \<le> snd (dims s) \<and>
    - 1 \<le> fst index \<and> fst index \<le> fst (dims s) \<and> - 1 \<le> snd index \<and> snd index \<le> snd (dims s)
      \<longrightarrow> wrap_index s index = (fst index mod fst (dims s), snd index mod snd (dims s)))"
  by (simp add: wrap_switch_near wrap_index_def)

theorem wrap_switch_mod_witness:
  "wrap_switch (- 1) 5 = (- 1) mod 5 \<and> wrap_switch 5 5 = 5 mod 5 \<and>
   wrap_index (LifeSpace_init [block4] 0 True False) (- 1, 4) = (3, 0)"
  using wrap_switch_mod [of 5 "- 1" "LifeSpace_init [block4] 0 True False" "(- 1, 4)"]
    wrap_switch_mod [of 5 5 "LifeSpace_init [block4] 0 True False" "(- 1, 4)"]
  by (simp add: LifeSpace_init_def np_shape_def block4_def)


section \<open>The vectorized stub does nothing\<close>

lemma VectorLife_run_loop_track:
  assumes "vtrack s" "tape s = Some t"
  shows "VectorLife_run_loop xs s = Inr (s\<lparr>tape := Some (t @ replicate (length xs) (board s))\<rparr>)"
  using assms
proof (induction xs arbitrary: s t)
  case Nil
  then show ?case by simp
next
  case (Cons x xs)
  let ?s1 = "s\<lparr>tape := Some (t @ [board s])\<rparr>"
  have "VectorLife_run_loop (x # xs) s = VectorLife_run_loop xs ?s1"
    using Cons.prems by (simp add: VectorLife_step_def)
  also have "\<dots> = Inr (?s1\<lparr>tape := Some ((t @ [board s]) @ replicate (length xs) (board ?s1))\<rparr>)"
    by (rule Cons.IH) (use Cons.prems in simp_all)
  finally show ?case by (simp add: replicate_app_Cons_same)
qed

lemma length_py_range: "length (py_range g) = nat g"
  by (simp add: py_range_def)

text \<open>
  Claim C9: \<^verbatim>\<open>step\<close> of the vectorized stub returns the instance as it was, board and
  every other field; and on an instance made with tracking on, \<^verbatim>\<open>run(g)\<close> for a count
  \<open>g \<ge> 0\<close> changes the tape only, which then holds \<open>g + 1\<close> boards, each the initial one.
\<close>

theorem VectorLife_step_noop:
  "VectorLife_step s = s \<and>
   (0 \<le> g \<longrightarrow>
      (\<exists>t. VectorLife_run g (VectorLife_init b w True) = Inr ((VectorLife_init b w True)\<lparr>tape := Some t\<rparr>) \<and>
           int (length t) = g + 1 \<and> (\<forall>x \<in> set t. x = b)))"
proof -
  let ?s = "VectorLife_init b w True"
  have "VectorLife_run g ?s = Inr (?s\<lparr>tape := Some ([b] @ replicate (nat g) b)\<rparr>)"
    using VectorLife_run_loop_track [of ?s "[b]" "py_range g"]
    by (simp add: VectorLife_run_def length_py_range VectorLife_init_def)
  moreover have "0 \<le> g \<Longrightarrow> int (length ([b] @ replicate (nat g) b)) = g + 1" by simp
  moreover have "\<forall>x \<in> set ([b] @ replicate (nat g) b). x = b" by auto
  ultimately show ?thesis unfolding VectorLife_step_def by blast
qed

theorem VectorLife_step_noop_witness:
  "\<exists>t. VectorLife_run 3 (VectorLife_init block4 False True) =
          Inr ((VectorLife_init block4 False True)\<lparr>tape := Some t\<rparr>) \<and>
        int (length t) = 4 \<and> t = [block4, block4, block4, block4]"
  using VectorLife_step_noop [of "VectorLife_init block4 False True" 3 block4 False]
  by (auto simp: VectorLife_run_def py_range_def VectorLife_init_def VectorLife_step_def upto.simps)


section \<open>Rule derivation of the n-dimensional engine\<close>

text \<open>
  With the integer dimensionality 2 in place of the shape, \<^verbatim>\<open>make_rules\<close> still raises:
  \<^verbatim>\<open>math.pow\<close> returns the float 8.0 and \<^verbatim>\<open>range\<close> refuses a float. The loop itself,
  given the table of the eight proportions, sets no attribute when it scans
  \<^verbatim>\<open>range(2)\<close>, and finds the bands [2, 3] and [3, 3] when it scans the whole table.
\<close>

lemma make_rules_int_raises: "make_rules (PyInt 2) = Inl TypeError"
  by (simp add: make_rules_def range_float_def)

lemma make_rules_loop_short:
  "make_rules_loop (map (\<lambda>i. of_int i / 8) [0, 1, 2, 3, 4, 5, 6, 7]) (py_range 2) no_rules False False False
     = Inr no_rules"
  by (simp add: py_range_def upto.simps tuple_get_def)

lemma make_rules_loop_full:
  "make_rules_loop (map (\<lambda>i. of_int i / 8) [0, 1, 2, 3, 4, 5, 6, 7]) (py_range 8) no_rules False False False
     = Inr \<lparr> low_rule = Some 2, high_rule = Some 3, res_low = Some 3, res_high = Some 3 \<rparr>"
  by (simp add: py_range_def upto.simps tuple_get_def no_rules_def)

text \<open>
  Claim C8 says that on a two-dimensional board \<^verbatim>\<open>make_rules\<close> derives four thresholds
  in \<open>[0, 7]\<close> with \<open>low_rule \<le> high_rule\<close> and \<open>res_low \<le> res_high\<close>. The code derives
  none: \<^verbatim>\<open>self.dims\<close> is the shape tuple, \<^verbatim>\<open>pow(3, self.dims)\<close> raises TypeError, and
  the constructor ends there, on every board.
\<close>

theorem make_rules_raises: "LifeND_init_rules a = Inl TypeError"
  by (simp add: LifeND_init_rules_def LifeND_dims_def make_rules_def)


section \<open>The text of a board\<close>

lemma get_view_row_eq:
  "get_view_row repr row = repr @ map (\<lambda>j. if j then CHR ''0'' else CHR '' '') row"
  by (induction row arbitrary: repr) simp_all

lemma get_view_rows_eq:
  "get_view_rows repr grid =
     repr @ concat (map (\<lambda>row. map (\<lambda>j. if j then CHR ''0'' else CHR '' '') row @ ''\<newline>'') grid)"
  by (induction grid arbitrary: repr) (simp_all add: get_view_row_eq)

text \<open>
  Claim C10: \<^verbatim>\<open>get_view\<close> returns the rows in order, each row one character per cell
  (\<open>0\<close> for an alive cell, a space for a dead one) followed by a newline; for the board
  \<open>[[True, False], [False, True]]\<close> that is the text \<open>0\<close>, space, newline, space, \<open>0\<close>,
  newline.
\<close>

theorem get_view_text:
  "get_view grid = concat (map (\<lambda>row. map (\<lambda>j. if j then CHR ''0'' else CHR '' '') row @ ''\<newline>'') grid)
   \<and> get_view [[True, False], [False, True]] = ''0 \<newline> 0\<newline>''"
  by (simp add: get_view_def get_view_rows_eq)


section \<open>Neighbours on a wrapped board\<close>


text \<open>
  Claim C4 as stated fails in its second half on a board with an axis of extent 1:
  on the 1x3 board with wrap on, the neighbours of the cell \<open>(0, 1)\<close> are eight tuples,
  and two of them are \<open>(0, 1)\<close> itself.
\<close>

theorem own_cell_among_wrapped_neighbors:
  "get_neighbors (LifeSpace_init [row3] 0 True False) (0, 1) =
     Inr [(0, 0), (0, 1), (0, 2), (0, 0), (0, 2), (0, 0), (0, 1), (0, 2)]"
  by (simp add: get_neighbors_eq candidates_def wrap_index_def wrap_switch_def
      LifeSpace_init_def np_shape_def row3_def)

lemma wrap_switch_pred: "0 \<le> n \<Longrightarrow> n < d \<Longrightarrow> wrap_switch (n - 1) d = n \<longleftrightarrow> d = 1"
  by (auto simp: wrap_switch_def)

lemma wrap_switch_succ: "0 \<le> n \<Longrightarrow> n < d \<Longrightarrow> wrap_switch (n + 1) d = n \<longleftrightarrow> d = 1"
  by (auto simp: wrap_switch_def)

lemma wrap_switch_same: "0 \<le> n \<Longrightarrow> n < d \<Longrightarrow> wrap_switch n d = n"
  by (auto simp: wrap_switch_def)

lemma self_neighbor_iff:
  assumes "in_bounds (dims s) index"
  shows "index \<in> set (map (wrap_index s) (candidates index)) \<longleftrightarrow>
           fst (dims s) = 1 \<or> snd (dims s) = 1"
proof -
  obtain i j where ij: "index = (i, j)" by (cases index)
  have b: "0 \<le> i" "i < fst (dims s)" "0 \<le> j" "j < snd (dims s)"
    using assms ij by (auto simp: in_bounds_def)
  show ?thesis
    unfolding ij
    by (simp add: candidates_def wrap_index_def eq_commute [of "i"] eq_commute [of "j"]
        wrap_switch_pred [OF b(1,2)] wrap_switch_succ [OF b(1,2)] wrap_switch_same [OF b(1,2)]
        wrap_switch_pred [OF b(3,4)] wrap_switch_succ [OF b(3,4)] wrap_switch_same [OF b(3,4)])
      blast
qed

lemma length_candidates: "length (candidates index) = 8"
  by (simp add: candidates_def Let_def)

text \<open>
  Claim C4, amended: with wrap on, \<^verbatim>\<open>get_neighbors\<close> returns exactly eight tuples for
  every index (no candidate is dropped); for a valid cell index, none of them is the
  cell's own index when both extents are at least 2, and the cell's own index is among
  them when an axis has extent 1.
\<close>

theorem get_neighbors_wrap:
  assumes "wrap s"
  shows "\<exists>ns. get_neighbors s index = Inr ns \<and> length ns = 8 \<and>
           (in_bounds (dims s) index \<longrightarrow>
              (index \<in> set ns \<longleftrightarrow> fst (dims s) = 1 \<or> snd (dims s) = 1))"
  using assms self_neighbor_iff [of s index]
  by (simp add: get_neighbors_eq length_candidates)

theorem get_neighbors_wrap_witness:
  "\<exists>ns. get_neighbors (LifeSpace_init [block4] 0 True False) (0, 3) = Inr ns \<and> length ns = 8 \<and>
     (0, 3) \<notin> set ns"
  using get_neighbors_wrap [of "LifeSpace_init [block4] 0 True False" "(0, 3)"]
  by (simp add: LifeSpace_init_def np_shape_def block4_def in_bounds_def)


section \<open>The block is a still life\<close>

lemma rect_block4: "rect block4 (4, 4)"
  by (simp add: rect_def block4_def)

lemma np_shape_block4: "np_shape block4 = (4, 4)"
  by (simp add: np_shape_def block4_def)

lemma in_bounds_4_cases:
  assumes "in_bounds (4, 4) index"
  shows "index \<in> set [(i, j). i \<leftarrow> [0, 1, 2, 3], j \<leftarrow> [0, 1, 2, 3 :: int]]"
proof -
  obtain i j where ij: "index = (i, j)" by (cases index)
  have "i = 0 \<or> i = 1 \<or> i = 2 \<or> i = 3" "j = 0 \<or> j = 1 \<or> j = 2 \<or> j = 3"
    using assms ij by (auto simp: in_bounds_def)
  then show ?thesis unfolding ij by auto
qed

lemma block4_cell_fixed:
  assumes "dims s = (4, 4)" "\<not> wrap s" "in_bounds (4, 4) index"
  shows "next_cell_value block4 s index = cell_at block4 index"
proof -
  have "\<forall>index \<in> set [(i, j). i \<leftarrow> [0, 1, 2, 3], j \<leftarrow> [0, 1, 2, 3 :: int]].
          next_cell_value block4 s index = cell_at block4 index"
    using assms(1,2)
    by (simp add: next_cell_value_def neighbors_of_def candidates_def check_valid_index_iff
        cell_at_def block4_def check_live_def)
  then show ?thesis using in_bounds_4_cases [OF assms(3)] by blast
qed


lemma block4_step:
  assumes "wf h s" "h ! space s = block4" "dims s = (4, 4)" "\<not> wrap s"
  shows "step h s = Inr (length h, h @ [block4],
                 s\<lparr>space := length h, hist := (if track s then hist s @ [length h] else hist s)\<rparr>)"
proof -
  obtain a where a: "step h s = Inr (length h, h @ [a],
                 s\<lparr>space := length h, hist := (if track s then hist s @ [length h] else hist s)\<rparr>)"
    "rect a (dims s)"
    "\<forall>index. in_bounds (dims s) index \<longrightarrow> cell_at a index = next_cell_value (h ! space s) s index"
    using step_ok [OF assms(1)] by blast
  have "a = block4"
  proof (rule rect_ext)
    show "rect a (4, 4)" using a(2) assms(3) by simp
    show "rect block4 (4, 4)" by (rule rect_block4)
    fix index assume ib: "in_bounds (4, 4) index"
    have "cell_at a index = next_cell_value (h ! space s) s index"
      using a(3) ib assms(3) by (cases index) simp
    also have "\<dots> = cell_at block4 index"
      using block4_cell_fixed [OF assms(3,4) ib] assms(2) by simp
    finally show "cell_at a index = cell_at block4 index" .
  qed
  with a(1) show ?thesis by simp
qed

lemma block4_steps:
  assumes "wf h s" "h ! space s = block4" "dims s = (4, 4)" "\<not> wrap s"
  shows "\<exists>h' s'. steps N h s = Inr (h', s') \<and> wf h' s' \<and> h' ! space s' = block4 \<and>
           dims s' = (4, 4) \<and> \<not> wrap s'"
  using assms
proof (induction N arbitrary: h s)
  case 0
  then show ?case by simp
next
  case (Suc N)
  let ?h1 = "h @ [block4]"
  let ?s1 = "s\<lparr>space := length h, hist := (if track s then hist s @ [length h] else hist s)\<rparr>"
  have st: "step h s = Inr (length h, ?h1, ?s1)"
    using block4_step [OF Suc.prems] .
  have "\<exists>h' s'. steps N ?h1 ?s1 = Inr (h', s') \<and> wf h' s' \<and> h' ! space s' = block4 \<and>
           dims s' = (4, 4) \<and> \<not> wrap s'"
  proof (rule Suc.IH)
    show "wf ?h1 ?s1" using wf_step [OF Suc.prems(1) st] .
    show "?h1 ! space ?s1 = block4" by simp
    show "dims ?s1 = (4, 4)" using Suc.prems(3) by simp
    show "\<not> wrap ?s1" using Suc.prems(4) by simp
  qed
  then show ?case using st by simp
qed

text \<open>
  Claim C3: on an engine made with wrap off over the 4x4 board whose four centre cells
  are alive, any number \<open>N\<close> of steps succeeds and leaves the engine's board equal to
  that block, and the next \<^verbatim>\<open>step\<close> returns a board equal to the current one.
\<close>

theorem block_still_life:
  assumes "sp < length h" "h ! sp = block4"
  shows "\<exists>h' s'. steps N h (LifeSpace_init h sp False t) = Inr (h', s') \<and> h' ! space s' = block4 \<and>
           (\<exists>r h'' s''. step h' s' = Inr (r, h'', s'') \<and> h'' ! r = h' ! space s')"
proof -
  let ?s = "LifeSpace_init h sp False t"
  have w: "wf h ?s" using wf_init [OF assms(1)] rect_block4 assms(2) by simp
  have "h ! space ?s = block4" "dims ?s = (4, 4)" "\<not> wrap ?s"
    using assms(2) np_shape_block4 by (simp_all add: LifeSpace_init_def)
  from block4_steps [OF w this]
  obtain h' s' where s': "steps N h ?s = Inr (h', s')" "wf h' s'" "h' ! space s' = block4"
    "dims s' = (4, 4)" "\<not> wrap s'" by blast
  have "step h' s' = Inr (length h', h' @ [block4],
          s'\<lparr>space := length h', hist := (if track s' then hist s' @ [length h'] else hist s')\<rparr>)"
    using block4_step [OF s'(2-5)] .
  then show ?thesis using s'(1,3) by simp
qed

theorem block_still_life_witness:
  "\<exists>h' s'. steps 2 [block4] (LifeSpace_init [block4] 0 False False) = Inr (h', s') \<and>
      h' ! space s' = block4 \<and>
      (\<exists>r h'' s''. step h' s' = Inr (r, h'', s'') \<and> h'' ! r = h' ! space s')"
  using block_still_life [of 0 "[block4]" 2 False]
  by simp


section \<open>Steps and the history\<close>

lemma steps_prefix:
  assumes "wf h s" "k \<le> N" "steps N h s = Inr (h', s')"
  shows "\<exists>hk sk. steps k h s = Inr (hk, sk) \<and> wf hk sk \<and> length hk = length h + k \<and>
           take (length hk) h' = hk \<and> space sk = (if k = 0 then space s else length h + k - 1)"
proof -
  obtain hk sk where k: "steps k h s = Inr (hk, sk)" "wf hk sk" "length hk = length h + k"
    "space sk = (if k = 0 then space s else length h + k - 1)"
    using steps_ok [OF assms(1), of k] by blast
  obtain h2 s2 where m: "steps (N - k) hk sk = Inr (h2, s2)" "take (length hk) h2 = hk"
    using steps_ok [OF k(2), of "N - k"] by blast
  have "steps N h s = steps (N - k) hk sk"
    using steps_add [of k "N - k" h s] assms(2) k(1) by simp
  with assms(3) m(1) have "h2 = h'" by simp
  with m(2) k show ?thesis by blast
qed

text \<open>
  Claim C6: on an engine made with tracking on (over a rectangular board of the store),
  \<open>N\<close> calls of \<^verbatim>\<open>step\<close> succeed, the history then holds \<open>N + 1\<close> boards, its last
  entry is the engine's current board, and its entry \<open>k\<close> is the board the engine had
  after \<open>k\<close> steps (entry 0 the initial board), with the content it had then.
\<close>

theorem history_tracks_steps:
  assumes "sp < length h" "rect (h ! sp) d"
  shows "\<exists>h' s'. steps N h (LifeSpace_init h sp w True) = Inr (h', s') \<and>
           length (hist s') = N + 1 \<and> last (hist s') = space s' \<and>
           (\<forall>k \<le> N. \<exists>hk sk. steps k h (LifeSpace_init h sp w True) = Inr (hk, sk) \<and>
                      hist s' ! k = space sk \<and> h' ! (hist s' ! k) = hk ! space sk)"
proof -
  let ?s = "LifeSpace_init h sp w True"
  have w: "wf h ?s" using wf_init [OF assms] .
  have i: "track ?s" "hist ?s = [sp]" "space ?s = sp" by (simp_all add: LifeSpace_init_def Let_def)
  obtain h' s' where s': "steps N h ?s = Inr (h', s')"
    "hist s' = sp # [length h..<length h + N]"
    "space s' = (if N = 0 then sp else length h + N - 1)"
    using steps_ok [OF w, of N] i by auto
  have len: "length (hist s') = N + 1" using s'(2) by simp
  have lst: "last (hist s') = space s'" using s'(2,3) by (cases N) simp_all
  have "\<exists>hk sk. steps k h ?s = Inr (hk, sk) \<and> hist s' ! k = space sk \<and>
          h' ! (hist s' ! k) = hk ! space sk" if kN: "k \<le> N" for k
  proof -
    obtain hk sk where k: "steps k h ?s = Inr (hk, sk)" "wf hk sk" "length hk = length h + k"
      "take (length hk) h' = hk" "space sk = (if k = 0 then sp else length h + k - 1)"
      using steps_prefix [OF w kN s'(1)] i(3) by auto
    have e: "hist s' ! k = space sk"
      using s'(2) k(5) kN by (cases k) simp_all
    have "space sk < length hk" using k(2) by (simp add: wf_def)
    then have "h' ! space sk = take (length hk) h' ! space sk" by simp
    with k(4) e have "h' ! (hist s' ! k) = hk ! space sk" by simp
    with k(1) e show ?thesis by blast
  qed
  with s'(1) len lst show ?thesis by blast
qed

theorem history_tracks_steps_witness:
  "\<exists>h' s'. steps 2 [bottom3] (LifeSpace_init [bottom3] 0 False True) = Inr (h', s') \<and>
           length (hist s') = 3 \<and> last (hist s') = space s'"
proof -
  have "0 < length [bottom3]" "rect ([bottom3] ! 0) (3, 3)"
    by (simp_all add: rect_def bottom3_def)
  from history_tracks_steps [OF this, of 2 False] show ?thesis
    by (simp only: numeral_2_eq_2 numeral_3_eq_3) auto
qed


section \<open>The next board is computed from the current one\<close>

lemma next_cell_value_engine:
  assumes "dims s2 = dims s" "wrap s2 = wrap s"
  shows "next_cell_value a s2 index = next_cell_value a s index"
proof -
  have "check_valid_index s2 = check_valid_index s"
    using assms(1) by (intro ext) (simp add: check_valid_index_def)
  moreover have "wrap_index s2 = wrap_index s"
    using assms(1) by (intro ext) (simp add: wrap_index_def)
  ultimately show ?thesis
    using assms(2) by (simp add: next_cell_value_def neighbors_of_def)
qed

lemma get_next_cell_parts:
  assumes "rect (h ! space s) (dims s)" "in_bounds (dims s) index"
  shows "\<exists>ns c live. get_neighbors s index = Inr ns \<and> count_live_neighbors h s ns = Inr c \<and>
           np_get (h ! space s) index = Inr live \<and>
           next_cell_value (h ! space s) s index = check_live live c"
  using count_live_neighbors_ok [OF assms]
    np_get_readable [OF assms(1) in_bounds_readable [OF assms(2)]]
  by (simp add: get_neighbors_eq neighbors_of_def next_cell_value_def)

text \<open>
  Claim C7: \<^verbatim>\<open>get_next_space\<close> returns a new array and changes no array that existed
  before the call, the engine's current board among them; the cell of the returned
  board at each index of the board is \<^verbatim>\<open>check_live\<close> of the old value of that cell and
  of the count of live neighbours read from the old board; and the returned board is
  the same for any engine with the same board content, shape and wrap flag.
\<close>

theorem get_next_space_frame:
  assumes "wf h s"
  shows "\<exists>new_space h'. get_next_space h s = Inr (new_space, h') \<and>
           length h \<le> new_space \<and> take (length h) h' = h \<and> h' ! space s = h ! space s \<and>
           rect (h' ! new_space) (dims s) \<and>
           (\<forall>index. in_bounds (dims s) index \<longrightarrow>
              (\<exists>ns c live. get_neighbors s index = Inr ns \<and>
                 count_live_neighbors h s ns = Inr c \<and>
                 np_get (h ! space s) index = Inr live \<and>
                 np_get (h' ! new_space) index = Inr (check_live live c))) \<and>
           (\<forall>h2 s2. wf h2 s2 \<and> h2 ! space s2 = h ! space s \<and> dims s2 = dims s \<and> wrap s2 = wrap s \<longrightarrow>
              (\<exists>new2 h2'. get_next_space h2 s2 = Inr (new2, h2') \<and> h2' ! new2 = h' ! new_space))"
proof -
  have sp: "space s < length h" and r: "rect (h ! space s) (dims s)"
    using assms by (auto simp: wf_def)
  obtain a where a: "get_next_space h s = Inr (length h, h @ [a])" "rect a (dims s)"
    "\<And>index. in_bounds (dims s) index \<Longrightarrow> cell_at a index = next_cell_value (h ! space s) s index"
    using get_next_space_ok [OF assms] by blast
  have cells: "\<exists>ns c live. get_neighbors s index = Inr ns \<and>
                 count_live_neighbors h s ns = Inr c \<and>
                 np_get (h ! space s) index = Inr live \<and>
                 np_get a index = Inr (check_live live c)" if ib: "in_bounds (dims s) index" for index
  proof -
    have "np_get a index = Inr (next_cell_value (h ! space s) s index)"
      using np_get_readable [OF a(2) in_bounds_readable [OF ib]] a(3) [OF ib] by simp
    then show ?thesis using get_next_cell_parts [OF r ib] by auto
  qed
  have solely: "\<exists>new2 h2'. get_next_space h2 s2 = Inr (new2, h2') \<and> h2' ! new2 = a"
    if w2: "wf h2 s2" and e: "h2 ! space s2 = h ! space s" "dims s2 = dims s" "wrap s2 = wrap s"
    for h2 s2
  proof -
    obtain a2 where a2: "get_next_space h2 s2 = Inr (length h2, h2 @ [a2])" "rect a2 (dims s2)"
      "\<And>index. in_bounds (dims s2) index \<Longrightarrow> cell_at a2 index = next_cell_value (h2 ! space s2) s2 index"
      using get_next_space_ok [OF w2] by blast
    have "a2 = a"
    proof (rule rect_ext)
      show "rect a2 (dims s)" using a2(2) e(2) by simp
      show "rect a (dims s)" by fact
      fix index assume ib: "in_bounds (dims s) index"
      then have "cell_at a2 index = next_cell_value (h ! space s) s2 index"
        using a2(3) e(1,2) by simp
      also have "\<dots> = next_cell_value (h ! space s) s index"
        using next_cell_value_engine [OF e(2,3)] .
      finally show "cell_at a2 index = cell_at a index" using a(3) [OF ib] by simp
    qed
    with a2(1) show ?thesis by simp
  qed
  have "take (length h) (h @ [a]) = h" "(h @ [a]) ! space s = h ! space s" "(h @ [a]) ! length h = a"
    using sp by (simp_all add: nth_append)
  with a(1,2) cells solely show ?thesis by auto
qed

theorem get_next_space_frame_witness:
  "\<exists>new_space h'. get_next_space [bottom3] (LifeSpace_init [bottom3] 0 False False) = Inr (new_space, h') \<and>
     h' ! 0 = bottom3 \<and> np_get (h' ! new_space) (0, 1) = Inr True"
proof -
  let ?s = "LifeSpace_init [bottom3] 0 False False"
  have s: "space ?s = 0" "dims ?s = (3, 3)" "\<not> wrap ?s"
    by (simp_all add: bottom3_def LifeSpace_init_def np_shape_def Let_def)
  have w: "wf [bottom3] ?s"
    using wf_init [of 0 "[bottom3]" "(3, 3)"] by (simp add: rect_def bottom3_def)
  have ib: "in_bounds (dims ?s) (0, 1)"
    by (simp add: in_bounds_def s)
  have ns: "get_neighbors ?s (0, 1) =
          Inr [(- 1, 0), (- 1, 1), (- 1, 2), (0, 0), (0, 2), (1, 0), (1, 1), (1, 2)]"
    by (simp add: get_neighbors_eq candidates_def check_valid_index_iff s)
  have c: "count_live_neighbors [bottom3] ?s
          [(- 1, 0), (- 1, 1), (- 1, 2), (0, 0), (0, 2), (1, 0), (1, 1), (1, 2)] = Inr 3"
    unfolding count_live_neighbors_def s
    by (simp add: np_get_def axis_index_def bottom3_def)
  have l: "np_get ([bottom3] ! space ?s) (0, 1) = Inr False"
    unfolding s
    by (simp add: np_get_def axis_index_def bottom3_def)
  from get_next_space_frame [OF w] obtain new_space h' where
    g: "get_next_space [bottom3] ?s = Inr (new_space, h')" "h' ! space ?s = [bottom3] ! space ?s"
    and cells: "\<forall>index. in_bounds (dims ?s) index \<longrightarrow>
              (\<exists>ns c live. get_neighbors ?s index = Inr ns \<and>
                 count_live_neighbors [bottom3] ?s ns = Inr c \<and>
                 np_get ([bottom3] ! space ?s) index = Inr live \<and>
                 np_get (h' ! new_space) index = Inr (check_live live c))"
    by blast
  from cells ib ns c l have "np_get (h' ! new_space) (0, 1) = Inr (check_live False 3)"
    by fastforce
  moreover have "h' ! 0 = bottom3" using g(2) s(1) by simp
  ultimately show ?thesis using g(1) by (simp add: check_live_def)
qed


section \<open>The low edges of a bounded board\<close>

lemma cell_at_rect:
  assumes "rect a d" "0 < fst d"
  shows "cell_at a n = a ! nat (fst n mod fst d) ! nat (snd n mod snd d)"
proof -
  have "int (length a) = fst d" using assms by (simp add: rect_def)
  moreover have "int (length (hd a)) = snd d"
    using rect_hd [OF assms] assms(1) by (simp add: rect_def)
  ultimately show ?thesis by (simp add: cell_at_def)
qed

text \<open>
  Claim C2: the test \<^verbatim>\<open>any(index) < 0\<close> is false for every tuple, and
  \<^verbatim>\<open>check_valid_index\<close> accepts exactly the indices whose coordinates are each at most
  the extent minus one. So with wrap off, the neighbours of a cell in row 0 include
  the index with row \<open>-1\<close> in the cell's column, and those of a cell in column 0 the
  index with column \<open>-1\<close> in the cell's row; \<^verbatim>\<open>count_live_neighbors\<close> does not raise
  on them, and counts each neighbour at its coordinates modulo the extents: the read at
  row \<open>-1\<close> returns the cell of the last row, the read at column \<open>-1\<close> that of the
  last column.
\<close>

theorem low_edge_reads_wrap:
  assumes "wf h s" "\<not> wrap s" "in_bounds (dims s) index"
  shows "(\<forall>xs. \<not> (of_bool (py_any xs) :: int) < 0) \<and>
     (\<forall>p. check_valid_index s p \<longleftrightarrow> fst p \<le> fst (dims s) - 1 \<and> snd p \<le> snd (dims s) - 1) \<and>
     (\<exists>ns. get_neighbors s index = Inr ns \<and>
        count_live_neighbors h s ns =
          Inr (sum_list (map (\<lambda>n. of_bool (h ! space s ! nat (fst n mod fst (dims s))
                                                       ! nat (snd n mod snd (dims s)))) ns)) \<and>
        (fst index = 0 \<longrightarrow> (- 1, snd index) \<in> set ns \<and>
           np_get (h ! space s) (- 1, snd index) =
             Inr (h ! space s ! nat (fst (dims s) - 1) ! nat (snd index))) \<and>
        (snd index = 0 \<longrightarrow> (fst index, - 1) \<in> set ns \<and>
           np_get (h ! space s) (fst index, - 1) =
             Inr (h ! space s ! nat (fst index) ! nat (snd (dims s) - 1))))"
proof -
  let ?a = "h ! space s"
  let ?ns = "neighbors_of s index"
  obtain i j where ij: "index = (i, j)" by (cases index)
  have r: "rect ?a (dims s)" using assms(1) by (simp add: wf_def)
  have b: "0 \<le> i" "i < fst (dims s)" "0 \<le> j" "j < snd (dims s)"
    using assms(3) ij by (auto simp: in_bounds_def)
  then have pos: "0 < fst (dims s)" "0 < snd (dims s)" by linarith+
  have g: "get_neighbors s index = Inr ?ns"
    by (simp add: get_neighbors_eq neighbors_of_def)
  have c: "count_live_neighbors h s ?ns =
          Inr (sum_list (map (\<lambda>n. of_bool (?a ! nat (fst n mod fst (dims s))
                                              ! nat (snd n mod snd (dims s)))) ?ns))"
    using count_live_neighbors_ok [OF r assms(3)] cell_at_rect [OF r pos(1)] by simp
  have row: "(- 1, j) \<in> set ?ns \<and> np_get ?a (- 1, j) = Inr (?a ! nat (fst (dims s) - 1) ! nat j)"
    if "i = 0"
  proof
    show "(- 1, j) \<in> set ?ns"
      using assms(2) b that ij
      by (simp add: neighbors_of_def candidates_def check_valid_index_iff)
    have "readable (dims s) (- 1, j)" using b pos by (simp add: readable_def)
    then have "np_get ?a (- 1, j) = Inr (cell_at ?a (- 1, j))"
      using np_get_readable [OF r] by blast
    also have "cell_at ?a (- 1, j) = ?a ! nat (fst (dims s) - 1) ! nat j"
      using cell_at_rect [OF r pos(1), of "(- 1, j)"] b pos by (simp add: zmod_minus1)
    finally show "np_get ?a (- 1, j) = Inr (?a ! nat (fst (dims s) - 1) ! nat j)" .
  qed
  have col: "(i, - 1) \<in> set ?ns \<and> np_get ?a (i, - 1) = Inr (?a ! nat i ! nat (snd (dims s) - 1))"
    if "j = 0"
  proof
    show "(i, - 1) \<in> set ?ns"
      using assms(2) b that ij
      by (simp add: neighbors_of_def candidates_def check_valid_index_iff)
    have "readable (dims s) (i, - 1)" using b pos by (simp add: readable_def)
    then have "np_get ?a (i, - 1) = Inr (cell_at ?a (i, - 1))"
      using np_get_readable [OF r] by blast
    also have "cell_at ?a (i, - 1) = ?a ! nat i ! nat (snd (dims s) - 1)"
      using cell_at_rect [OF r pos(1), of "(i, - 1)"] b pos by (simp add: zmod_minus1)
    finally show "np_get ?a (i, - 1) = Inr (?a ! nat i ! nat (snd (dims s) - 1))" .
  qed
  show ?thesis
    using g c row col ij check_valid_index_iff [of s] by simp
qed

theorem low_edge_reads_wrap_witness:
  "\<exists>ns. get_neighbors (LifeSpace_init [bottom3] 0 False False) (0, 1) = Inr ns \<and>
     (- 1, 1) \<in> set ns \<and> np_get bottom3 (- 1, 1) = Inr True \<and>
     count_live_neighbors [bottom3] (LifeSpace_init [bottom3] 0 False False) ns = Inr 3"
proof -
  let ?s = "LifeSpace_init [bottom3] 0 False False"
  have s: "space ?s = 0" "dims ?s = (3, 3)" "\<not> wrap ?s"
    by (simp_all add: bottom3_def LifeSpace_init_def np_shape_def Let_def)
  have w: "wf [bottom3] ?s"
    using wf_init [of 0 "[bottom3]" "(3, 3)"] by (simp add: rect_def bottom3_def)
  have ib: "in_bounds (dims ?s) (0, 1)"
    by (simp add: in_bounds_def s)
  have ns: "get_neighbors ?s (0, 1) =
          Inr [(- 1, 0), (- 1, 1), (- 1, 2), (0, 0), (0, 2), (1, 0), (1, 1), (1, 2)]"
    by (simp add: get_neighbors_eq candidates_def check_valid_index_iff s)
  have c: "count_live_neighbors [bottom3] ?s
          [(- 1, 0), (- 1, 1), (- 1, 2), (0, 0), (0, 2), (1, 0), (1, 1), (1, 2)] = Inr 3"
    unfolding count_live_neighbors_def s
    by (simp add: np_get_def axis_index_def bottom3_def)
  from low_edge_reads_wrap [OF w s(3) ib]
  have "(- 1, 1) \<in> set [(- 1, 0), (- 1, 1), (- 1, 2), (0, 0), (0, 2), (1, 0), (1, 1), (1, 2 :: int)] \<and>
        np_get ([bottom3] ! space ?s) (- 1, 1) = Inr ([bottom3] ! space ?s ! nat (fst (dims ?s) - 1) ! nat 1)"
    unfolding ns by simp
  then show ?thesis using ns c unfolding s by (simp add: bottom3_def)
qed

end
